theory Spec2Isabelle
  imports Complex_Main
begin

section \<open>Exceptions and results\<close>

text \<open>
  The exceptions the navigation code tells apart. \<open>Skip\<close> is
  \<^verbatim>\<open>subiquitycore.tuicontroller.Skip\<close>; \<open>Error msg\<close> is any other instance of
  Python's \<^verbatim>\<open>Exception\<close>; \<open>CancelledError\<close> is \<^verbatim>\<open>asyncio.CancelledError\<close>, which is a
  \<^verbatim>\<open>BaseException\<close> but not an \<^verbatim>\<open>Exception\<close>, so \<^verbatim>\<open>except Exception\<close> lets it pass
  while \<^verbatim>\<open>finally\<close> still runs.
\<close>

datatype exn = Skip | Error string | CancelledError

fun is_Exception :: "exn \<Rightarrow> bool" where
  "is_Exception Skip = True"
| "is_Exception (Error msg) = True"
| "is_Exception CancelledError = False"

datatype 'a outcome = Returned 'a | Raised exn

section \<open>Controllers and the application state\<close>

text \<open>
  What \<^verbatim>\<open>new.make_ui()\<close> does: return a view, return a coroutine (whose result
  of being awaited is given), or raise.
\<close>

datatype 'v ui = View 'v | Coroutine "'v outcome" | UiRaises exn

record 'v controller =
  name :: string
  make_ui :: "'v ui"

text \<open>The calls on collaborators that the navigation code makes, in order.\<close>

datatype event =
    AwaitCoro
  | ContextEnter string string
  | ContextExit string string
  | EndUi string
  | MakeUi string
  | LogDebug string
  | Exit

text \<open>
  The fields of \<^verbatim>\<open>TuiApplication\<close> that \<^verbatim>\<open>_move_screen\<close> reads and writes:
  \<^verbatim>\<open>self.cur_screen\<close>, \<^verbatim>\<open>self.controllers.index\<close>,
  \<^verbatim>\<open>self.controllers.instances\<close>, \<^verbatim>\<open>self.opts.screens\<close>, and the log of calls made.
\<close>

record 'v app =
  cur_screen :: "'v controller option"
  index :: int
  instances :: "'v controller list"
  screens :: "string list"
  events :: "event list"

definition emit :: "event \<Rightarrow> 'v app \<Rightarrow> 'v app" where
  "emit e s = s\<lparr>events := events s @ [e]\<rparr>"

text \<open>
  Modelled from the spec: \<^verbatim>\<open>self.controllers.cur\<close> (the controller set is not
  among the sources) is "the stage at \<open>cursor\<close>". It is only read with the index in range.
\<close>

definition cur :: "'v app \<Rightarrow> 'v controller" where
  "cur s = instances s ! nat (index s)"

text \<open>
  Modelled from the spec: \<^verbatim>\<open>self.exit()\<close> (defined in the base application, not
  among the sources) "triggers overall termination" and returns.
\<close>

definition app_exit :: "'v app \<Rightarrow> 'v app" where
  "app_exit s = emit Exit s"

section \<open>View construction\<close>

text \<open>
  \<^verbatim>\<open>maybe_view = new.make_ui()\<close>, awaited when it is a coroutine
  (lines 133 to 137).
\<close>

fun run_make_ui :: "'v ui \<Rightarrow> 'v outcome" where
  "run_make_ui (View v) = Returned v"
| "run_make_ui (Coroutine r) = r"
| "run_make_ui (UiRaises e) = Raised e"

definition make_view_for_controller ::
  "'v controller \<Rightarrow> 'v app \<Rightarrow> 'v app \<times> 'v outcome" where
  "make_view_for_controller new s =
    (let s1 = emit (ContextEnter (name new) ''starting UI'') s in
     if screens s1 \<noteq> [] \<and> name new \<notin> set (screens s1) then (s1, Raised Skip)
     else
       let s2 = emit (MakeUi (name new)) s1 in
       case run_make_ui (make_ui new) of
         Raised Skip \<Rightarrow> (emit (ContextExit (name new) ''(skipped)'') s2, Raised Skip)
       | Raised e \<Rightarrow> (s2, Raised e)
       | Returned view \<Rightarrow> (s2\<lparr>cur_screen := Some new\<rparr>, Returned view))"

section \<open>Moving between screens\<close>

text \<open>
  The \<^verbatim>\<open>while True\<close> loop of \<^verbatim>\<open>_move_screen\<close> (lines 225 to 241). With
  \<open>increment = 0\<close> and a stage that skips, the loop never ends; that is the value
  \<open>None\<close>.
\<close>

partial_function (option) move_loop ::
  "int \<Rightarrow> int \<Rightarrow> 'v app \<Rightarrow> ('v app \<times> 'v option outcome) option" where
  "move_loop increment cur_index s =
    (let s1 = s\<lparr>index := index s + increment\<rparr> in
     if index s1 < 0 then Some (s1\<lparr>index := cur_index\<rparr>, Returned None)
     else if index s1 \<ge> int (length (instances s1)) then Some (app_exit s1, Returned None)
     else
       case make_view_for_controller (cur s1) s1 of
         (s2, Returned view) \<Rightarrow> Some (s2, Returned (Some view))
       | (s2, Raised Skip) \<Rightarrow>
           move_loop increment cur_index (emit (LogDebug (name (cur s1))) s2)
       | (s2, Raised e) \<Rightarrow>
           if is_Exception e then Some (s2\<lparr>index := cur_index\<rparr>, Raised e)
           else Some (s2, Raised e))"

declare move_loop.simps [code]

text \<open>\<^verbatim>\<open>if coro is not None: await coro\<close> (lines 218 and 219).\<close>

fun await_coro :: "unit outcome option \<Rightarrow> 'v app \<Rightarrow> 'v app \<times> unit outcome" where
  "await_coro None s = (s, Returned ())"
| "await_coro (Some r) s = (emit AwaitCoro s, r)"

text \<open>Lines 220 to 223: the active screen is dropped and told it is completed.\<close>

definition end_current :: "'v app \<Rightarrow> 'v app" where
  "end_current s =
    (let old = cur_screen s; s1 = s\<lparr>cur_screen := None\<rparr> in
     case old of
       None \<Rightarrow> s1
     | Some c \<Rightarrow> emit (EndUi (name c)) (emit (ContextExit (name c) ''completed'') s1))"

definition move_screen ::
  "int \<Rightarrow> unit outcome option \<Rightarrow> 'v app \<Rightarrow> ('v app \<times> 'v option outcome) option" where
  "move_screen increment coro s =
    (case await_coro coro s of
       (s0, Raised e) \<Rightarrow> Some (s0, Raised e)
     | (s0, Returned u) \<Rightarrow>
         let s1 = end_current s0; cur_index = index s1 in
         move_loop increment cur_index s1)"

text \<open>
  What view construction yields for a controller: it depends on \<^verbatim>\<open>opts.screens\<close>
  and the controller only (see \<open>make_view_outcome\<close> below).
\<close>

definition view_outcome :: "string list \<Rightarrow> 'v controller \<Rightarrow> 'v outcome" where
  "view_outcome scr new =
    (if scr \<noteq> [] \<and> name new \<notin> set scr then Raised Skip
     else run_make_ui (make_ui new))"

text \<open>What a run of the loop that returns guarantees; \<open>origin\<close> is \<^verbatim>\<open>cur_index\<close>.\<close>

definition post :: "int \<Rightarrow> 'v app \<Rightarrow> 'v app \<times> 'v option outcome \<Rightarrow> bool" where
  "post origin s res =
    (case res of (s', r) \<Rightarrow>
      instances s' = instances s \<and> screens s' = screens s \<and>
      (\<exists>evs. events s' = events s @ evs) \<and>
      (case r of
         Returned (Some v) \<Rightarrow>
           (\<exists>c. cur_screen s' = Some c \<and> view_outcome (screens s) c = Returned v \<and>
                0 \<le> index s' \<and> index s' < int (length (instances s)) \<and>
                c = instances s ! nat (index s'))
       | Returned None \<Rightarrow>
           cur_screen s' = cur_screen s \<and>
           (index s' = origin \<or> int (length (instances s)) \<le> index s')
       | Raised e \<Rightarrow>
           cur_screen s' = cur_screen s \<and> e \<noteq> Skip \<and>
           (is_Exception e \<longrightarrow> index s' = origin)))"

subsection \<open>Example stages\<close>

definition stage_A :: "nat controller" where
  "stage_A = \<lparr>name = ''A'', make_ui = UiRaises Skip\<rparr>"

definition stage_B :: "nat controller" where
  "stage_B = \<lparr>name = ''B'', make_ui = View 7\<rparr>"

definition stage_C :: "nat controller" where
  "stage_C = \<lparr>name = ''C'', make_ui = Coroutine (Raised (Error ''boom''))\<rparr>"



definition app_at :: "int \<Rightarrow> nat controller option \<Rightarrow> nat app" where
  "app_at i c =
    \<lparr>cur_screen = c, index = i, instances = [stage_A, stage_B, stage_C],
     screens = [], events = []\<rparr>"

section \<open>Waiting with an indication of progress\<close>

text \<open>Lines 60 and 63, in seconds.\<close>

definition MAX_BLOCK_TIME :: real where
  "MAX_BLOCK_TIME = 1 / 10"

definition MIN_SHOW_PROGRESS_TIME :: real where
  "MIN_SHOW_PROGRESS_TIME = 1"

text \<open>
  \<^verbatim>\<open>_wait_with_indication\<close> runs as two tasks of one cooperative event loop: the
  caller, and \<^verbatim>\<open>show_task\<close> running \<^verbatim>\<open>_show\<close>. Between two \<^verbatim>\<open>await\<close>s a task runs
  without interruption, so a state of the call is where each task is suspended.

  Where the caller is: at \<^verbatim>\<open>await awaitable\<close> (line 166); in the \<^verbatim>\<open>finally\<close> block at
  \<^verbatim>\<open>await min_show_task\<close> (line 169) or at \<^verbatim>\<open>await hide()\<close> (line 171), holding
  the result or exception of the \<^verbatim>\<open>try\<close> body; or out of the call, either with that
  result or exception (\<open>Done\<close>), or with an exception raised inside the \<^verbatim>\<open>finally\<close>
  block, which replaces it (\<open>Finally_raised\<close>).
\<close>

datatype 'a main_pc =
    At_awaitable
  | At_min_show "'a outcome"
  | At_hide "'a outcome"
  | Done "'a outcome"
  | Finally_raised exn

text \<open>
  Where \<^verbatim>\<open>show_task\<close> is: at \<^verbatim>\<open>await asyncio.sleep(MAX_BLOCK_TIME)\<close> (line 157), at
  \<^verbatim>\<open>await show()\<close> (line 161), finished, or cancelled.
\<close>

datatype show_pc = Sleeping | In_show | Show_ended | Show_cancelled

datatype call = Show | Hide

text \<open>
  \<open>min_show_task\<close> is \<open>None\<close> as in the source, or the time before which the sleep of
  the task created on line 160 does not end. \<open>calls\<close> logs the calls of the two
  callbacks with the time of each; \<open>clock\<close> is the time of the last resumption and
  \<open>entered\<close> the time of the call.
\<close>

record 'a wait_state =
  block_input :: bool
  min_show_task :: "real option"
  main_at :: "'a main_pc"
  show_task :: show_pc
  calls :: "(real \<times> call) list"
  clock :: real
  entered :: real

text \<open>
  What the event loop can do: resume one of the two tasks at one of its \<^verbatim>\<open>await\<close>s.
  \<open>Awaitable_done r\<close>: the awaited operation is over and the caller goes on with its
  result or exception \<open>r\<close> (a cancellation of the caller while it waits there is
  \<open>Raised CancelledError\<close>). \<open>Sleep_done\<close>: the sleep of \<^verbatim>\<open>_show\<close> is over.
  \<open>Show_done r\<close>, \<open>Hide_done r\<close>: the callback is over. \<open>Min_show_done\<close>:
  \<^verbatim>\<open>min_show_task\<close> is finished and the caller goes on. \<open>Min_show_cancelled\<close>: the
  caller is cancelled while it waits for \<^verbatim>\<open>min_show_task\<close>.
\<close>

datatype 'a resume =
    Awaitable_done "'a outcome"
  | Sleep_done
  | Show_done "unit outcome"
  | Min_show_done
  | Min_show_cancelled
  | Hide_done "unit outcome"

text \<open>
  Lines 154, 163 and 164, up to the first \<^verbatim>\<open>await\<close> of each task, at time \<open>t0\<close>.
\<close>

definition wait_start :: "real \<Rightarrow> 'a wait_state" where
  "wait_start t0 =
    \<lparr>block_input = True, min_show_task = None, main_at = At_awaitable,
     show_task = Sleeping, calls = [], clock = t0, entered = t0\<rparr>"

text \<open>\<^verbatim>\<open>show_task.cancel()\<close>: a task that is over is left as it is.\<close>

fun cancel :: "show_pc \<Rightarrow> show_pc" where
  "cancel Sleeping = Show_cancelled"
| "cancel In_show = Show_cancelled"
| "cancel Show_ended = Show_ended"
| "cancel Show_cancelled = Show_cancelled"

text \<open>Lines 158 to 161 of \<^verbatim>\<open>_show\<close>, run at time \<open>t\<close>, up to the call of \<^verbatim>\<open>show\<close>.\<close>

definition show_body :: "real \<Rightarrow> 'a wait_state \<Rightarrow> 'a wait_state" where
  "show_body t s =
    s\<lparr>block_input := False,
      min_show_task := Some (t + MIN_SHOW_PROGRESS_TIME),
      calls := calls s @ [(t, Show)],
      show_task := In_show\<rparr>"

text \<open>
  The \<^verbatim>\<open>finally\<close> block (lines 168 to 174) entered with the result \<open>r\<close> of the
  \<^verbatim>\<open>try\<close> body, up to its first \<^verbatim>\<open>await\<close> or to the end of the call.
\<close>

definition finally_block :: "'a outcome \<Rightarrow> 'a wait_state \<Rightarrow> 'a wait_state" where
  "finally_block r s =
    (case min_show_task s of
       Some d \<Rightarrow> s\<lparr>main_at := At_min_show r\<rparr>
     | None \<Rightarrow> s\<lparr>block_input := False, show_task := cancel (show_task s), main_at := Done r\<rparr>)"

text \<open>
  One resumption at time \<open>t\<close>; \<open>hide\<close> tells whether a \<^verbatim>\<open>hide\<close> callback was given.
  \<open>None\<close> is a resumption the event loop cannot make: back in time, of a task that is
  not waiting there, or of a sleep before its time.
\<close>

fun step :: "bool \<Rightarrow> real \<times> 'a resume \<Rightarrow> 'a wait_state \<Rightarrow> 'a wait_state option" where
  "step hide (t, ev) s0 =
    (if t < clock s0 then None
     else
       let s = s0\<lparr>clock := t\<rparr> in
       case ev of
         Sleep_done \<Rightarrow>
           if show_task s = Sleeping \<and> entered s + MAX_BLOCK_TIME \<le> t
           then Some (show_body t s) else None
       | Show_done r \<Rightarrow>
           if show_task s = In_show then Some (s\<lparr>show_task := Show_ended\<rparr>) else None
       | Awaitable_done r \<Rightarrow>
           if main_at s = At_awaitable then Some (finally_block r s) else None
       | Min_show_done \<Rightarrow>
           (case (main_at s, min_show_task s) of
              (At_min_show r, Some d) \<Rightarrow>
                if d \<le> t then
                  (if hide then Some (s\<lparr>calls := calls s @ [(t, Hide)], main_at := At_hide r\<rparr>)
                   else Some (s\<lparr>main_at := Done r\<rparr>))
                else None
            | _ \<Rightarrow> None)
       | Min_show_cancelled \<Rightarrow>
           (case main_at s of
              At_min_show r \<Rightarrow> Some (s\<lparr>main_at := Finally_raised CancelledError\<rparr>)
            | _ \<Rightarrow> None)
       | Hide_done hr \<Rightarrow>
           (case main_at s of
              At_hide r \<Rightarrow>
                Some (s\<lparr>main_at := (case hr of Returned u \<Rightarrow> Done r
                                       | Raised e \<Rightarrow> Finally_raised e)\<rparr>)
            | _ \<Rightarrow> None))"

fun run :: "bool \<Rightarrow> (real \<times> 'a resume) list \<Rightarrow> 'a wait_state \<Rightarrow> 'a wait_state option" where
  "run hide [] s = Some s"
| "run hide (e # es) s = (case step hide e s of None \<Rightarrow> None | Some s' \<Rightarrow> run hide es s')"

text \<open>What holds of every state a call can be in; \<open>t0\<close> is the time of the call.\<close>

definition wait_inv :: "bool \<Rightarrow> real \<Rightarrow> 'a wait_state \<Rightarrow> bool" where
  "wait_inv hide t0 s \<longleftrightarrow>
    entered s = t0 \<and> t0 \<le> clock s \<and>
    (case show_task s of
       Sleeping \<Rightarrow>
         min_show_task s = None \<and> calls s = [] \<and> block_input s \<and> main_at s = At_awaitable
     | Show_cancelled \<Rightarrow>
         min_show_task s = None \<and> calls s = [] \<and> \<not> block_input s \<and>
         (\<exists>r. main_at s = Done r)
     | _ \<Rightarrow>
         \<not> block_input s \<and>
         (\<exists>ts. t0 + MAX_BLOCK_TIME \<le> ts \<and> ts \<le> clock s \<and>
            min_show_task s = Some (ts + MIN_SHOW_PROGRESS_TIME) \<and>
            (case main_at s of
               At_awaitable \<Rightarrow> calls s = [(ts, Show)]
             | At_min_show r \<Rightarrow> calls s = [(ts, Show)]
             | At_hide r \<Rightarrow>
                 hide \<and> (\<exists>th. ts + MIN_SHOW_PROGRESS_TIME \<le> th \<and> th \<le> clock s \<and>
                           calls s = [(ts, Show), (th, Hide)])
             | Done r \<Rightarrow>
                 ts + MIN_SHOW_PROGRESS_TIME \<le> clock s \<and>
                 (if hide
                  then \<exists>th. ts + MIN_SHOW_PROGRESS_TIME \<le> th \<and> th \<le> clock s \<and>
                         calls s = [(ts, Show), (th, Hide)]
                  else calls s = [(ts, Show)])
             | Finally_raised e \<Rightarrow>
                 calls s = [(ts, Show)] \<or>
                 (hide \<and> (\<exists>th. ts + MIN_SHOW_PROGRESS_TIME \<le> th \<and> th \<le> clock s \<and>
                            calls s = [(ts, Show), (th, Hide)])))))"

text \<open>The result or exception the caller holds once it is past \<^verbatim>\<open>await awaitable\<close>.\<close>

fun held :: "'a main_pc \<Rightarrow> 'a outcome option" where
  "held At_awaitable = None"
| "held (At_min_show r) = Some r"
| "held (At_hide r) = Some r"
| "held (Done r) = Some r"
| "held (Finally_raised e) = None"

subsection \<open>Example runs\<close>

text \<open>
  An operation over after 0.05s; one over after 0.3s, with the indication shown at
  0.1s and hidden at 1.1s; and one that fails after 0.3s, whose caller is cancelled
  at 0.5s while the indication is held.
\<close>

definition quick_run :: "(real \<times> nat resume) list" where
  "quick_run = [(1 / 20, Awaitable_done (Returned 3))]"

definition slow_run :: "(real \<times> nat resume) list" where
  "slow_run =
    [(1 / 10, Sleep_done), (1 / 10, Show_done (Returned ())),
     (3 / 10, Awaitable_done (Returned 3)), (11 / 10, Min_show_done),
     (6 / 5, Hide_done (Returned ()))]"

definition interrupted_run :: "(real \<times> nat resume) list" where
  "interrupted_run =
    [(1 / 10, Sleep_done), (3 / 10, Awaitable_done (Raised (Error ''failed''))),
     (1 / 2, Min_show_cancelled)]"

section \<open>SingleInstanceTask\<close>

text \<open>
  Modelled from the spec: \<^verbatim>\<open>SingleInstanceTask\<close> lives in
  \<^verbatim>\<open>subiquitycore/async_helpers.py\<close>, which is not among the sources (only its tests
  are). The states of a task and the two restart policies are those of the spec's data
  model; \<open>task\<close> is the current or most recent task (\<open>Idle\<close> when none was ever
  started), \<open>earlier\<close> the tasks it replaced, \<open>factory_calls\<close> the number of times
  the wrapped factory has been invoked.
\<close>

datatype task_state = Idle | Running | Completed | Cancelled | Failed

datatype restart_policy = RejectIfRunning | CancelAndRestart

datatype start_error = AlreadyRunningError

record single_instance_task =
  policy :: restart_policy
  task :: task_state
  earlier :: "task_state list"
  factory_calls :: nat

definition new_task :: "restart_policy \<Rightarrow> single_instance_task" where
  "new_task p = \<lparr>policy = p, task = Idle, earlier = [], factory_calls = 0\<rparr>"

text \<open>Modelled from the spec: "launches a new task" by one call of the factory.\<close>

definition launch :: "single_instance_task \<Rightarrow> single_instance_task" where
  "launch s = s\<lparr>task := Running, factory_calls := Suc (factory_calls s)\<rparr>"

text \<open>
  Modelled from the spec: \<^verbatim>\<open>start()\<close>. "If idle, launches a new task and returns
  immediately. If already running: under \<open>RejectIfRunning\<close>, fails with
  \<open>AlreadyRunningError\<close>, leaving the running task untouched; under
  \<open>CancelAndRestart\<close>, best-effort-cancels the running task and immediately starts a
  new one."
\<close>

definition start ::
  "single_instance_task \<Rightarrow> single_instance_task \<times> start_error option" where
  "start s =
    (if task s = Running then
       (case policy s of
          RejectIfRunning \<Rightarrow> (s, Some AlreadyRunningError)
        | CancelAndRestart \<Rightarrow> (launch (s\<lparr>earlier := earlier s @ [Cancelled]\<rparr>), None))
     else
       (launch (s\<lparr>earlier := (if task s = Idle then earlier s else earlier s @ [task s])\<rparr>),
        None))"

section \<open>Proofs: navigation\<close>

lemma mv_frame:
  "index (fst (make_view_for_controller c s)) = index s"
  "instances (fst (make_view_for_controller c s)) = instances s"
  "screens (fst (make_view_for_controller c s)) = screens s"
  by (simp_all add: make_view_for_controller_def emit_def Let_def
        split: outcome.splits exn.splits)

lemma make_view_outcome:
  "snd (make_view_for_controller c s) = view_outcome (screens s) c"
  by (simp add: make_view_for_controller_def view_outcome_def emit_def Let_def
        split: outcome.splits exn.splits)

lemma mv_cur_screen:
  "make_view_for_controller c s = (s', r) \<Longrightarrow>
   cur_screen s' = (case r of Returned v \<Rightarrow> Some c | Raised e \<Rightarrow> cur_screen s)"
  by (auto simp add: make_view_for_controller_def emit_def Let_def
        split: outcome.splits exn.splits if_splits)

lemma mv_events:
  "\<exists>evs. events (fst (make_view_for_controller c s)) = events s @ evs"
  by (simp add: make_view_for_controller_def emit_def Let_def
        split: outcome.splits exn.splits)

lemma move_loop_below:
  "index s + increment < 0 \<Longrightarrow>
   move_loop increment origin s = Some (s\<lparr>index := origin\<rparr>, Returned None)"
  by (subst move_loop.simps) (simp add: Let_def)

lemma move_loop_past_end:
  "int (length (instances s)) \<le> index s + increment \<Longrightarrow>
   move_loop increment origin s =
     Some (s\<lparr>index := index s + increment, events := events s @ [Exit]\<rparr>, Returned None)"
  by (subst move_loop.simps) (simp add: Let_def app_exit_def emit_def)

lemma move_loop_in_range:
  assumes "0 \<le> index s + increment" "index s + increment < int (length (instances s))"
    and "make_view_for_controller (cur (s\<lparr>index := index s + increment\<rparr>))
           (s\<lparr>index := index s + increment\<rparr>) = (s2, r)"
  shows "move_loop increment origin s =
    (case r of
       Returned view \<Rightarrow> Some (s2, Returned (Some view))
     | Raised Skip \<Rightarrow>
         move_loop increment origin
           (emit (LogDebug (name (cur (s\<lparr>index := index s + increment\<rparr>)))) s2)
     | Raised e \<Rightarrow>
         if is_Exception e then Some (s2\<lparr>index := origin\<rparr>, Raised e)
         else Some (s2, Raised e))"
  using assms by (subst move_loop.simps) (simp add: Let_def split: outcome.splits exn.splits)

lemma move_loop_post:
  assumes "move_loop increment origin s = Some res"
  shows "post origin s res"
proof (rule move_loop.raw_induct [where P = "\<lambda>i c. post c", OF _ assms])
  fix loop :: "int \<Rightarrow> int \<Rightarrow> 'a app \<Rightarrow> ('a app \<times> 'a option outcome) option"
  fix increment origin s res
  assume ih: "\<And>i c s y. loop i c s = Some y \<Longrightarrow> post c s y"
  assume body: "(let s1 = s\<lparr>index := index s + increment\<rparr> in
     if index s1 < 0 then Some (s1\<lparr>index := origin\<rparr>, Returned None)
     else if index s1 \<ge> int (length (instances s1)) then Some (app_exit s1, Returned None)
     else
       case make_view_for_controller (cur s1) s1 of
         (s2, Returned view) \<Rightarrow> Some (s2, Returned (Some view))
       | (s2, Raised Skip) \<Rightarrow>
           loop increment origin (emit (LogDebug (name (cur s1))) s2)
       | (s2, Raised e) \<Rightarrow>
           if is_Exception e then Some (s2\<lparr>index := origin\<rparr>, Raised e)
           else Some (s2, Raised e)) = Some res"
  let ?s1 = "s\<lparr>index := index s + increment\<rparr>"
  show "post origin s res"
  proof (cases "index s + increment < 0")
    case True
    with body show ?thesis by (auto simp: post_def Let_def)
  next
    case nonneg: False
    show ?thesis
    proof (cases "int (length (instances s)) \<le> index s + increment")
      case True
      with nonneg body show ?thesis
        by (auto simp: post_def Let_def app_exit_def emit_def)
    next
      case False
      obtain s2 r where mv: "make_view_for_controller (cur ?s1) ?s1 = (s2, r)"
        by (cases "make_view_for_controller (cur ?s1) ?s1")
      have fr: "index s2 = index s + increment" "instances s2 = instances s"
        "screens s2 = screens s"
        using mv_frame [of "cur ?s1" ?s1] mv by simp_all
      obtain evs where ev: "events s2 = events s @ evs"
        using mv_events [of "cur ?s1" ?s1] mv by auto
      have rs: "view_outcome (screens s) (cur ?s1) = r"
        using make_view_outcome [of "cur ?s1" ?s1] mv by simp
      note cs = mv_cur_screen [OF mv]
      show ?thesis
      proof (cases r)
        case (Returned v)
        with nonneg False body mv fr ev cs rs show ?thesis
          by (auto simp: post_def Let_def cur_def)
      next
        case (Raised e)
        show ?thesis
        proof (cases "e = Skip")
          case True
          with Raised nonneg False body mv
          have "loop increment origin (emit (LogDebug (name (cur ?s1))) s2) = Some res"
            by (simp add: Let_def)
          from ih [OF this]
          have p: "post origin (emit (LogDebug (name (cur ?s1))) s2) res" .
          obtain s' r' where res: "res = (s', r')" by (cases res)
          from p fr ev cs Raised show ?thesis
            unfolding post_def res
            by (auto simp: emit_def split: outcome.splits option.splits)
        next
          case notskip: False
          with Raised nonneg False body mv fr ev cs show ?thesis
            by (cases e) (auto simp: post_def Let_def)
        qed
      qed
    qed
  qed
qed

text \<open>With a non-zero increment the loop returns.\<close>

lemma move_loop_returns:
  assumes "increment \<noteq> 0"
  shows "\<exists>res. move_loop increment origin s = Some res"
proof (induction "nat (if 0 < increment then int (length (instances s)) - index s
                       else index s + 1)" arbitrary: s rule: less_induct)
  case less
  let ?s1 = "s\<lparr>index := index s + increment\<rparr>"
  show ?case
  proof (cases "index s + increment < 0")
    case True
    then show ?thesis by (simp add: move_loop_below)
  next
    case nonneg: False
    show ?thesis
    proof (cases "int (length (instances s)) \<le> index s + increment")
      case True
      then show ?thesis by (simp add: move_loop_past_end)
    next
      case False
      obtain s2 r where mv: "make_view_for_controller (cur ?s1) ?s1 = (s2, r)"
        by (cases "make_view_for_controller (cur ?s1) ?s1")
      have fr: "index s2 = index s + increment" "instances s2 = instances s"
        using mv_frame [of "cur ?s1" ?s1] mv by simp_all
      from nonneg False have rng: "0 \<le> index s + increment"
        "index s + increment < int (length (instances s))" by simp_all
      note unf = move_loop_in_range [OF rng mv, of origin]
      show ?thesis
      proof (cases r)
        case (Returned v)
        with unf show ?thesis by simp
      next
        case (Raised e)
        show ?thesis
        proof (cases e)
          case Skip
          let ?s3 = "emit (LogDebug (name (cur ?s1))) s2"
          have "nat (if 0 < increment then int (length (instances ?s3)) - index ?s3
                     else index ?s3 + 1)
              < nat (if 0 < increment then int (length (instances s)) - index s
                     else index s + 1)"
            using fr rng assms by (auto simp: emit_def)
          from less [OF this] Raised Skip unf show ?thesis by simp
        next
          case (Error m)
          with Raised unf show ?thesis by simp
        next
          case CancelledError
          with Raised unf show ?thesis by simp
        qed
      qed
    qed
  qed
qed


lemma await_coro_frame:
  "index (fst (await_coro coro s)) = index s"
  "instances (fst (await_coro coro s)) = instances s"
  "screens (fst (await_coro coro s)) = screens s"
  "cur_screen (fst (await_coro coro s)) = cur_screen s"
  by (cases coro; simp add: emit_def)+

lemma end_current_frame:
  "index (end_current s) = index s"
  "instances (end_current s) = instances s"
  "screens (end_current s) = screens s"
  "cur_screen (end_current s) = None"
  by (simp_all add: end_current_def emit_def Let_def split: option.splits)

lemma end_current_events:
  "events (end_current s) = events s @
     (case cur_screen s of None \<Rightarrow> []
      | Some c \<Rightarrow> [ContextExit (name c) ''completed'', EndUi (name c)])"
  by (simp add: end_current_def emit_def Let_def split: option.splits)

lemma move_screen_ok:
  "await_coro coro s = (s0, Returned u) \<Longrightarrow>
   move_screen increment coro s = move_loop increment (index s) (end_current s0)"
  using await_coro_frame(1) [of coro s]
  by (simp add: move_screen_def Let_def end_current_frame)


lemmas ex_defs = app_at_def stage_A_def stage_B_def stage_C_def cur_def
  make_view_for_controller_def view_outcome_def emit_def Let_def move_screen_def
  end_current_def app_exit_def

subsection \<open>Failure of view construction\<close>



text \<open>
  Cancellation is not an \<^verbatim>\<open>Exception\<close>: it passes \<^verbatim>\<open>except Exception\<close> and the cursor
  stays on the stage whose construction was cancelled.
\<close>

lemma cancelled_construction_keeps_cursor:
  assumes "0 \<le> index s + increment" "index s + increment < int (length (instances s))"
    and "make_view_for_controller (cur (s\<lparr>index := index s + increment\<rparr>))
           (s\<lparr>index := index s + increment\<rparr>) = (s2, Raised CancelledError)"
  shows "move_loop increment origin s = Some (s2, Raised CancelledError)"
    and "index s2 = index s + increment"
  using assms mv_frame(1) [of "cur (s\<lparr>index := index s + increment\<rparr>)"
      "s\<lparr>index := index s + increment\<rparr>"]
  by (simp_all add: move_loop_in_range)


subsection \<open>Skipped stages\<close>

text \<open>
  C2. When view construction for the stage at the cursor raises \<open>Skip\<close>, the loop
  goes round again from that stage with the same increment and the same \<open>cur_index\<close>;
  a move never raises \<open>Skip\<close> (unless the pretransition awaitable itself did); and with
  stages \<open>[a, b, c]\<close> where \<open>a\<close> skips and \<open>b\<close> builds the view \<open>v\<close>, a forward move
  from before \<open>a\<close> returns \<open>v\<close> with the cursor on \<open>b\<close> and \<open>b\<close> the current screen.
\<close>

theorem skip_advances_again:
  "(0 \<le> index s + increment \<and> index s + increment < int (length (instances s)) \<and>
    make_view_for_controller (cur (s\<lparr>index := index s + increment\<rparr>))
      (s\<lparr>index := index s + increment\<rparr>) = (s2, Raised Skip)
    \<longrightarrow> index s2 = index s + increment \<and>
        move_loop increment origin s =
        move_loop increment origin
          (emit (LogDebug (name (cur (s\<lparr>index := index s + increment\<rparr>)))) s2))
   \<and> (coro \<noteq> Some (Raised Skip) \<and> move_screen increment coro s = Some (s', r)
        \<longrightarrow> r \<noteq> Raised Skip)
   \<and> (instances t = [a, b, c] \<and> index t = - 1 \<and> snd (await_coro coro t) = Returned () \<and>
      view_outcome (screens t) a = Raised Skip \<and> view_outcome (screens t) b = Returned v
      \<longrightarrow> (\<exists>t'. move_screen 1 coro t = Some (t', Returned (Some v)) \<and>
                index t' = 1 \<and> cur_screen t' = Some b))"
proof (intro conjI impI)
  let ?s1 = "s\<lparr>index := index s + increment\<rparr>"
  assume a: "0 \<le> index s + increment \<and> index s + increment < int (length (instances s)) \<and>
    make_view_for_controller (cur ?s1) ?s1 = (s2, Raised Skip)"
  then show "index s2 = index s + increment"
    using mv_frame(1) [of "cur ?s1" ?s1] by simp
  from a show "move_loop increment origin s =
        move_loop increment origin (emit (LogDebug (name (cur ?s1))) s2)"
    by (simp add: move_loop_in_range)
next
  assume a: "coro \<noteq> Some (Raised Skip) \<and> move_screen increment coro s = Some (s', r)"
  obtain s0 r0 where ac: "await_coro coro s = (s0, r0)" by (cases "await_coro coro s")
  show "r \<noteq> Raised Skip"
  proof (cases r0)
    case (Returned u)
    with a ac have "move_loop increment (index s) (end_current s0) = Some (s', r)"
      by (simp add: move_screen_ok)
    from move_loop_post [OF this] show ?thesis by (auto simp: post_def)
  next
    case (Raised e)
    with a ac show ?thesis by (cases coro) (auto simp: move_screen_def)
  qed
next
  assume a: "instances t = [a, b, c] \<and> index t = - 1 \<and> snd (await_coro coro t) = Returned () \<and>
      view_outcome (screens t) a = Raised Skip \<and> view_outcome (screens t) b = Returned v"
  obtain t0 where ac: "await_coro coro t = (t0, Returned ())"
    using a by (cases "await_coro coro t") simp
  define u where "u = end_current t0"
  have u: "index u = - 1" "instances u = [a, b, c]" "screens u = screens t"
    using a ac await_coro_frame [of coro t] by (simp_all add: u_def end_current_frame)
  let ?u1 = "u\<lparr>index := index u + 1\<rparr>"
  obtain u2 r2 where mv1: "make_view_for_controller (cur ?u1) ?u1 = (u2, r2)"
    by (cases "make_view_for_controller (cur ?u1) ?u1")
  have c1: "cur ?u1 = a" using u by (simp add: cur_def)
  have r2: "r2 = Raised Skip"
    using make_view_outcome [of "cur ?u1" ?u1] mv1 c1 u a by simp
  define w where "w = emit (LogDebug (name (cur ?u1))) u2"
  have w: "index w = 0" "instances w = [a, b, c]" "screens w = screens t"
    using mv_frame [of "cur ?u1" ?u1] mv1 u by (simp_all add: w_def emit_def)
  have step1: "move_loop 1 (index t) u = move_loop 1 (index t) w"
    using move_loop_in_range [of u 1 u2 r2 "index t"] mv1 r2 u by (simp add: w_def)
  let ?w1 = "w\<lparr>index := index w + 1\<rparr>"
  obtain w2 r3 where mv2: "make_view_for_controller (cur ?w1) ?w1 = (w2, r3)"
    by (cases "make_view_for_controller (cur ?w1) ?w1")
  have c2: "cur ?w1 = b" using w by (simp add: cur_def)
  have r3: "r3 = Returned v"
    using make_view_outcome [of "cur ?w1" ?w1] mv2 c2 w a by simp
  have step2: "move_loop 1 (index t) w = Some (w2, Returned (Some v))"
    using move_loop_in_range [of w 1 w2 r3 "index t"] mv2 r3 w by simp
  have "index w2 = 1" using mv_frame(1) [of "cur ?w1" ?w1] mv2 w by simp
  moreover have "cur_screen w2 = Some b" using mv_cur_screen [OF mv2] r3 c2 by simp
  moreover have "move_screen 1 coro t = Some (w2, Returned (Some v))"
    using move_screen_ok [OF ac, of 1] step1 step2 by (simp add: u_def)
  ultimately show "\<exists>t'. move_screen 1 coro t = Some (t', Returned (Some v)) \<and>
                index t' = 1 \<and> cur_screen t' = Some b" by simp
qed


theorem skip_advances_again_witness:
  "make_view_for_controller (cur ((app_at (- 1) None)\<lparr>index := 0\<rparr>))
      ((app_at (- 1) None)\<lparr>index := 0\<rparr>) =
     ((app_at 0 None)\<lparr>events := [ContextEnter ''A'' ''starting UI'', MakeUi ''A'',
         ContextExit ''A'' ''(skipped)'']\<rparr>, Raised Skip)
   \<and> move_loop 1 (- 1) (app_at (- 1) None) =
       move_loop 1 (- 1) ((app_at 0 None)\<lparr>events := [ContextEnter ''A'' ''starting UI'',
         MakeUi ''A'', ContextExit ''A'' ''(skipped)'', LogDebug ''A'']\<rparr>)
   \<and> move_screen (- 1) None (app_at 1 (Some stage_B)) =
       Some ((app_at 1 None)\<lparr>events := [ContextExit ''B'' ''completed'', EndUi ''B'',
         ContextEnter ''A'' ''starting UI'', MakeUi ''A'', ContextExit ''A'' ''(skipped)'',
         LogDebug ''A'']\<rparr>, Returned None)
   \<and> (Returned None :: nat option outcome) \<noteq> Raised Skip
   \<and> (\<exists>t'. move_screen 1 None (app_at (- 1) None) = Some (t', Returned (Some 7)) \<and>
            index t' = 1 \<and> cur_screen t' = Some stage_B)"
proof -
  let ?s = "app_at (- 1) None"
  let ?s2 = "(app_at 0 None)\<lparr>events := [ContextEnter ''A'' ''starting UI'', MakeUi ''A'',
         ContextExit ''A'' ''(skipped)'']\<rparr>"
  let ?s' = "(app_at 1 None)\<lparr>events := [ContextExit ''B'' ''completed'', EndUi ''B'',
         ContextEnter ''A'' ''starting UI'', MakeUi ''A'', ContextExit ''A'' ''(skipped)'',
         LogDebug ''A'']\<rparr>"
  have i: "index ?s + 1 = 0" by (simp add: app_at_def)
  have h1: "0 \<le> index ?s + 1 \<and> index ?s + 1 < int (length (instances ?s)) \<and>
    make_view_for_controller (cur (?s\<lparr>index := index ?s + 1\<rparr>))
      (?s\<lparr>index := index ?s + 1\<rparr>) = (?s2, Raised Skip)"
    by (simp add: ex_defs)
  have h2: "(None :: unit outcome option) \<noteq> Some (Raised Skip) \<and>
      move_screen (- 1) None (app_at 1 (Some stage_B)) = Some (?s', Returned None)"
    by (simp add: ex_defs move_loop.simps)
  have h3: "instances ?s = [stage_A, stage_B, stage_C] \<and> index ?s = - 1 \<and>
      snd (await_coro None ?s) = Returned () \<and>
      view_outcome (screens ?s) stage_A = Raised Skip \<and>
      view_outcome (screens ?s) stage_B = Returned 7"
    by (simp add: ex_defs)
  have e: "emit (LogDebug (name (cur (?s\<lparr>index := index ?s + 1\<rparr>)))) ?s2 =
      (app_at 0 None)\<lparr>events := [ContextEnter ''A'' ''starting UI'',
         MakeUi ''A'', ContextExit ''A'' ''(skipped)'', LogDebug ''A'']\<rparr>"
    by (simp add: ex_defs)
  from skip_advances_again
    [where s = ?s and increment = 1 and ?s2.0 = ?s2 and origin = "- 1" and coro = None
      and t = ?s and a = stage_A and b = stage_B and c = stage_C and v = 7]
    skip_advances_again
    [where coro = "None" and increment = "- 1" and s = "app_at 1 (Some stage_B)"
      and s' = ?s' and r = "Returned None"]
    h1 h2 h3
  show ?thesis unfolding i e [unfolded i] by blast
qed

subsection \<open>The pretransition awaitable\<close>

text \<open>
  C5. A pretransition awaitable is awaited before anything else is done. If it raises,
  the move raises the same exception and the state is untouched but for the record of
  that await: the cursor and the current screen are as before, and the current screen
  has been sent neither \<^verbatim>\<open>context.exit\<close> nor \<^verbatim>\<open>end_ui\<close>.
\<close>

theorem pretransition_failure_aborts:
  "move_screen increment (Some (Raised e)) s =
     Some (s\<lparr>events := events s @ [AwaitCoro]\<rparr>, Raised e)
   \<and> (move_screen increment (Some r) s = Some (s', res)
        \<longrightarrow> (\<exists>evs. events s' = events s @ AwaitCoro # evs))"
proof (intro conjI impI)
  show "move_screen increment (Some (Raised e)) s =
     Some (s\<lparr>events := events s @ [AwaitCoro]\<rparr>, Raised e)"
    by (simp add: move_screen_def emit_def)
next
  assume a: "move_screen increment (Some r) s = Some (s', res)"
  show "\<exists>evs. events s' = events s @ AwaitCoro # evs"
  proof (cases r)
    case (Returned u)
    then have "await_coro (Some r) s = (emit AwaitCoro s, Returned u)" by simp
    from move_screen_ok [OF this] a
    have "move_loop increment (index s) (end_current (emit AwaitCoro s)) = Some (s', res)"
      by simp
    from move_loop_post [OF this] obtain evs
      where "events s' = events (end_current (emit AwaitCoro s)) @ evs"
      by (auto simp: post_def)
    then show ?thesis by (simp add: end_current_events emit_def)
  next
    case (Raised e)
    with a show ?thesis by (auto simp: move_screen_def emit_def)
  qed
qed

theorem pretransition_failure_aborts_witness:
  "move_screen 1 (Some (Raised (Error ''no''))) (app_at 0 (Some stage_A)) =
     Some ((app_at 0 (Some stage_A))\<lparr>events := [AwaitCoro]\<rparr>, Raised (Error ''no''))
   \<and> move_screen 1 (Some (Returned ())) (app_at 0 (Some stage_A)) =
       Some ((app_at 1 (Some stage_B))\<lparr>events := [AwaitCoro, ContextExit ''A'' ''completed'',
         EndUi ''A'', ContextEnter ''B'' ''starting UI'', MakeUi ''B'']\<rparr>, Returned (Some 7))
   \<and> (\<exists>evs. events ((app_at 1 (Some stage_B))\<lparr>events := [AwaitCoro,
         ContextExit ''A'' ''completed'', EndUi ''A'', ContextEnter ''B'' ''starting UI'',
         MakeUi ''B'']\<rparr>) = events (app_at 0 (Some stage_A)) @ AwaitCoro # evs)"
proof -
  let ?s' = "(app_at 1 (Some stage_B))\<lparr>events := [AwaitCoro, ContextExit ''A'' ''completed'',
         EndUi ''A'', ContextEnter ''B'' ''starting UI'', MakeUi ''B'']\<rparr>"
  have h: "move_screen 1 (Some (Returned ())) (app_at 0 (Some stage_A)) =
       Some (?s', Returned (Some 7))"
    by (simp add: ex_defs move_loop.simps)
  have e: "(app_at 0 (Some stage_A))\<lparr>events := events (app_at 0 (Some stage_A)) @ [AwaitCoro]\<rparr>
      = (app_at 0 (Some stage_A))\<lparr>events := [AwaitCoro]\<rparr>"
    by (simp add: app_at_def)
  from pretransition_failure_aborts
    [where increment = 1 and e = "Error ''no''" and s = "app_at 0 (Some stage_A)"
      and r = "Returned ()" and s' = ?s' and res = "Returned (Some 7)"] h
  show ?thesis unfolding e by blast
qed

subsection \<open>The two ends of the stage sequence\<close>

text \<open>
  C6. When adding the increment takes the cursor to or past the number of stages, the
  loop calls \<^verbatim>\<open>exit\<close> and returns \<open>None\<close> (it does not raise); nothing else is done,
  so no view construction is attempted there. The same for a whole move whose first
  step leaves the sequence.
\<close>

theorem past_end_finishes:
  "(int (length (instances s)) \<le> index s + increment
     \<longrightarrow> move_loop increment origin s =
         Some (s\<lparr>index := index s + increment, events := events s @ [Exit]\<rparr>, Returned None))
   \<and> (await_coro coro t = (t0, Returned ()) \<and>
      int (length (instances t)) \<le> index t + increment
     \<longrightarrow> move_screen increment coro t =
         Some ((end_current t0)\<lparr>index := index t + increment,
                 events := events (end_current t0) @ [Exit]\<rparr>, Returned None))"
proof (intro conjI impI)
  assume "int (length (instances s)) \<le> index s + increment"
  then show "move_loop increment origin s =
         Some (s\<lparr>index := index s + increment, events := events s @ [Exit]\<rparr>, Returned None)"
    by (rule move_loop_past_end)
next
  assume a: "await_coro coro t = (t0, Returned ()) \<and>
      int (length (instances t)) \<le> index t + increment"
  then have f: "index t0 = index t" "instances t0 = instances t"
    using await_coro_frame [of coro t] by simp_all
  with a have "int (length (instances (end_current t0))) \<le> index (end_current t0) + increment"
    by (simp add: end_current_frame)
  from move_loop_past_end [OF this, of "index t"] a f
  show "move_screen increment coro t =
         Some ((end_current t0)\<lparr>index := index t + increment,
                 events := events (end_current t0) @ [Exit]\<rparr>, Returned None)"
    by (simp add: move_screen_ok end_current_frame)
qed

theorem past_end_finishes_witness:
  "move_loop 1 2 (app_at 2 None) =
     Some ((app_at 3 None)\<lparr>events := [Exit]\<rparr>, Returned None)
   \<and> move_screen 1 None (app_at 2 (Some stage_C)) =
     Some ((app_at 3 None)\<lparr>events := [ContextExit ''C'' ''completed'', EndUi ''C'', Exit]\<rparr>,
           Returned None)"
proof -
  have h1: "int (length (instances (app_at 2 None))) \<le> index (app_at 2 None) + 1"
    by (simp add: app_at_def)
  have h2: "await_coro None (app_at 2 (Some stage_C)) = (app_at 2 (Some stage_C), Returned ()) \<and>
      int (length (instances (app_at 2 (Some stage_C)))) \<le> index (app_at 2 (Some stage_C)) + 1"
    by (simp add: app_at_def)
  from past_end_finishes
    [where s = "app_at 2 None" and increment = 1 and origin = 2 and coro = None
      and t = "app_at 2 (Some stage_C)" and ?t0.0 = "app_at 2 (Some stage_C)"] h1 h2
  show ?thesis by (simp add: ex_defs)
qed

text \<open>
  C7. When adding the increment takes the cursor below 0, the loop puts the cursor
  back to \<open>cur_index\<close> and returns \<open>None\<close> (it does not raise); nothing else changes,
  so no view is constructed there. For a whole move whose first step goes below 0, the
  cursor ends where it was when the move began.
\<close>

theorem before_start_no_move:
  "(index s + increment < 0
     \<longrightarrow> move_loop increment origin s = Some (s\<lparr>index := origin\<rparr>, Returned None))
   \<and> (await_coro coro t = (t0, Returned ()) \<and> index t + increment < 0
     \<longrightarrow> move_screen increment coro t =
         Some ((end_current t0)\<lparr>index := index t\<rparr>, Returned None))"
proof (intro conjI impI)
  assume "index s + increment < 0"
  then show "move_loop increment origin s = Some (s\<lparr>index := origin\<rparr>, Returned None)"
    by (rule move_loop_below)
next
  assume a: "await_coro coro t = (t0, Returned ()) \<and> index t + increment < 0"
  then have f: "index t0 = index t"
    using await_coro_frame(1) [of coro t] by simp
  with a have "index (end_current t0) + increment < 0"
    by (simp add: end_current_frame)
  from move_loop_below [OF this, of "index t"] a
  show "move_screen increment coro t =
         Some ((end_current t0)\<lparr>index := index t\<rparr>, Returned None)"
    by (simp add: move_screen_ok)
qed

theorem before_start_no_move_witness:
  "move_loop (- 1) 1 (app_at 0 None) = Some (app_at 1 None, Returned None)
   \<and> move_screen (- 1) None (app_at 0 (Some stage_A)) =
     Some ((app_at 0 None)\<lparr>events := [ContextExit ''A'' ''completed'', EndUi ''A'']\<rparr>,
           Returned None)"
proof -
  have h1: "index (app_at 0 None) + (- 1) < 0"
    by (simp add: app_at_def)
  have h2: "await_coro None (app_at 0 (Some stage_A)) = (app_at 0 (Some stage_A), Returned ()) \<and>
      index (app_at 0 (Some stage_A)) + (- 1) < 0"
    by (simp add: app_at_def)
  from before_start_no_move
    [where s = "app_at 0 None" and increment = "- 1" and origin = 1 and coro = None
      and t = "app_at 0 (Some stage_A)" and ?t0.0 = "app_at 0 (Some stage_A)"] h1 h2
  show ?thesis by (simp add: ex_defs)
qed

subsection \<open>The current screen after a move\<close>

text \<open>
  C9. After a move (whose pretransition awaitable, if any, did not raise) the current
  screen is the stage at the cursor when the move returned a view, and \<open>None\<close> in every
  other case: when it returned \<open>None\<close> and when view construction raised. The screen
  that was current before has by then been sent \<^verbatim>\<open>context.exit("completed")\<close> and
  \<^verbatim>\<open>end_ui\<close>, first thing after the await.
\<close>

theorem cur_screen_after_move:
  "await_coro coro s = (s0, Returned ()) \<and> move_screen increment coro s = Some (s', r)
   \<longrightarrow> cur_screen s' =
         (case r of Returned (Some v) \<Rightarrow> Some (cur s') | Returned None \<Rightarrow> None
          | Raised e \<Rightarrow> None)
       \<and> (\<exists>evs. events s' = events s0 @
             (case cur_screen s of None \<Rightarrow> []
              | Some c \<Rightarrow> [ContextExit (name c) ''completed'', EndUi (name c)]) @ evs)"
proof (intro impI)
  assume a: "await_coro coro s = (s0, Returned ()) \<and>
    move_screen increment coro s = Some (s', r)"
  then have f: "cur_screen s0 = cur_screen s"
    using await_coro_frame(4) [of coro s] by simp
  from move_screen_ok [OF conjunct1 [OF a], of increment] conjunct2 [OF a]
  have "move_loop increment (index s) (end_current s0) = Some (s', r)"
    by simp
  from move_loop_post [OF this]
  have p: "post (index s) (end_current s0) (s', r)" .
  have 1: "cur_screen s' =
         (case r of Returned (Some v) \<Rightarrow> Some (cur s') | Returned None \<Rightarrow> None
          | Raised e \<Rightarrow> None)"
    using p by (auto simp: post_def end_current_frame cur_def split: outcome.splits option.splits)
  from p obtain evs where "events s' = events (end_current s0) @ evs"
    by (auto simp: post_def)
  then have 2: "\<exists>evs. events s' = events s0 @
             (case cur_screen s of None \<Rightarrow> []
              | Some c \<Rightarrow> [ContextExit (name c) ''completed'', EndUi (name c)]) @ evs"
    by (simp add: end_current_events f)
  from 1 2 show "cur_screen s' =
         (case r of Returned (Some v) \<Rightarrow> Some (cur s') | Returned None \<Rightarrow> None
          | Raised e \<Rightarrow> None)
       \<and> (\<exists>evs. events s' = events s0 @
             (case cur_screen s of None \<Rightarrow> []
              | Some c \<Rightarrow> [ContextExit (name c) ''completed'', EndUi (name c)]) @ evs)"
    by simp
qed

theorem cur_screen_after_move_witness:
  "move_screen (- 1) None (app_at 1 (Some stage_B)) =
       Some ((app_at 1 None)\<lparr>events := [ContextExit ''B'' ''completed'', EndUi ''B'',
         ContextEnter ''A'' ''starting UI'', MakeUi ''A'', ContextExit ''A'' ''(skipped)'',
         LogDebug ''A'']\<rparr>, Returned None)
   \<and> cur_screen ((app_at 1 None)\<lparr>events := [ContextExit ''B'' ''completed'', EndUi ''B'',
         ContextEnter ''A'' ''starting UI'', MakeUi ''A'', ContextExit ''A'' ''(skipped)'',
         LogDebug ''A'']\<rparr>) = None
   \<and> move_screen 1 None (app_at 1 (Some stage_B)) =
       Some ((app_at 1 None)\<lparr>events := [ContextExit ''B'' ''completed'', EndUi ''B'',
                ContextEnter ''C'' ''starting UI'', MakeUi ''C'']\<rparr>, Raised (Error ''boom''))
   \<and> cur_screen ((app_at 1 None)\<lparr>events := [ContextExit ''B'' ''completed'', EndUi ''B'',
                ContextEnter ''C'' ''starting UI'', MakeUi ''C'']\<rparr>) = None"
proof -
  let ?s = "app_at 1 (Some stage_B)"
  let ?a = "(app_at 1 None)\<lparr>events := [ContextExit ''B'' ''completed'', EndUi ''B'',
         ContextEnter ''A'' ''starting UI'', MakeUi ''A'', ContextExit ''A'' ''(skipped)'',
         LogDebug ''A'']\<rparr>"
  let ?b = "(app_at 1 None)\<lparr>events := [ContextExit ''B'' ''completed'', EndUi ''B'',
                ContextEnter ''C'' ''starting UI'', MakeUi ''C'']\<rparr>"
  have h1: "await_coro None ?s = (?s, Returned ()) \<and>
      move_screen (- 1) None ?s = Some (?a, Returned None)"
    by (simp add: ex_defs move_loop.simps)
  have h2: "await_coro None ?s = (?s, Returned ()) \<and>
      move_screen 1 None ?s = Some (?b, Raised (Error ''boom''))"
    by (simp add: ex_defs move_loop.simps)
  from cur_screen_after_move
    [where coro = None and s = ?s and ?s0.0 = ?s and increment = "- 1" and s' = ?a
      and r = "Returned None"]
    cur_screen_after_move
    [where coro = None and s = ?s and ?s0.0 = ?s and increment = 1 and s' = ?b
      and r = "Raised (Error ''boom'')"]
    h1 h2
  show ?thesis by simp
qed

section \<open>Proofs: waiting with an indication\<close>

lemma wait_start_inv: "wait_inv hide t0 (wait_start t0)"
  by (simp add: wait_inv_def wait_start_def)

lemma step_clock:
  "step hide (t, ev) s = Some s' \<Longrightarrow> clock s \<le> t \<and> clock s' = t"
  by (cases ev)
    (auto simp: Let_def show_body_def finally_block_def
      split: if_splits option.splits main_pc.splits outcome.splits)

lemma step_calls:
  "step hide e s = Some s' \<Longrightarrow> \<exists>xs. calls s' = calls s @ xs"
  by (cases e, cases "snd e")
    (auto simp: Let_def show_body_def finally_block_def
      split: if_splits option.splits main_pc.splits outcome.splits)

lemma step_inv:
  assumes "wait_inv hide t0 s" "step hide e s = Some s'"
  shows "wait_inv hide t0 s'"
proof -
  obtain t ev where e: "e = (t, ev)" by (cases e)
  from assms(2) e have le: "clock s \<le> t" using step_clock by blast
  show ?thesis
  proof (cases ev)
    case (Awaitable_done r)
    with assms e le show ?thesis
      by (cases "show_task s")
        (auto simp: wait_inv_def Let_def finally_block_def split: if_splits option.splits)
  next
    case Sleep_done
    with assms e le show ?thesis
      by (auto simp: wait_inv_def Let_def show_body_def split: if_splits)
  next
    case (Show_done r)
    with assms e le show ?thesis
      by (cases "main_at s")
        (auto simp: wait_inv_def Let_def split: if_splits)
  next
    case Min_show_done
    with assms e le show ?thesis
      by (cases "main_at s"; cases "show_task s")
        (auto simp: wait_inv_def Let_def split: if_splits option.splits)
  next
    case Min_show_cancelled
    with assms e le show ?thesis
      by (cases "main_at s"; cases "show_task s")
        (auto simp: wait_inv_def Let_def split: if_splits option.splits)
  next
    case (Hide_done hr)
    with assms e le show ?thesis
      by (cases "main_at s"; cases "show_task s"; cases hr)
        (auto simp: wait_inv_def Let_def split: if_splits option.splits)
  qed
qed


lemma run_inv:
  "wait_inv hide t0 s \<Longrightarrow> run hide evs s = Some s' \<Longrightarrow> wait_inv hide t0 s'"
proof (induction evs arbitrary: s)
  case Nil
  then show ?case by simp
next
  case (Cons e evs)
  then show ?case by (auto split: option.splits dest: step_inv)
qed

lemma run_calls:
  "run hide evs s = Some s' \<Longrightarrow> \<exists>xs. calls s' = calls s @ xs"
proof (induction evs arbitrary: s)
  case Nil
  then show ?case by simp
next
  case (Cons e evs)
  from Cons.prems obtain s1 where 1: "step hide e s = Some s1" and 2: "run hide evs s1 = Some s'"
    by (auto split: option.splits)
  from step_calls [OF 1] Cons.IH [OF 2] show ?case by auto
qed

lemma run_clock:
  "run hide evs s = Some s' \<Longrightarrow> clock s \<le> clock s'"
proof (induction evs arbitrary: s)
  case Nil
  then show ?case by simp
next
  case (Cons e evs)
  from Cons.prems obtain s1 where 1: "step hide e s = Some s1" and 2: "run hide evs s1 = Some s'"
    by (auto split: option.splits)
  obtain t ev where e: "e = (t, ev)" by (cases e)
  from step_clock [OF 1 [unfolded e]] Cons.IH [OF 2] show ?case by simp
qed

lemma run_append:
  "run hide (xs @ ys) s = (case run hide xs s of None \<Rightarrow> None | Some s' \<Rightarrow> run hide ys s')"
  by (induction xs arbitrary: s) (auto split: option.splits)

text \<open>Once \<^verbatim>\<open>show_task\<close> is cancelled the call is over: nothing can be resumed.\<close>

lemma cancelled_final:
  assumes "wait_inv hide t0 s" "show_task s = Show_cancelled"
  shows "step hide e s = None"
proof -
  obtain t ev where e: "e = (t, ev)" by (cases e)
  from assms obtain r where "main_at s = Done r" by (auto simp: wait_inv_def)
  with assms(2) show ?thesis unfolding e
    by (cases ev) (auto simp: Let_def)
qed

lemma cancelled_run:
  assumes "wait_inv hide t0 s" "show_task s = Show_cancelled" "run hide evs s = Some s'"
  shows "s' = s"
  using assms cancelled_final [OF assms(1,2)] by (cases evs) auto

text \<open>The calls made are a call of \<open>show\<close>, then perhaps one of \<open>hide\<close>.\<close>

lemma inv_calls_shape:
  assumes "wait_inv hide t0 s"
  shows "calls s = [] \<or>
    (\<exists>ts. t0 + MAX_BLOCK_TIME \<le> ts \<and>
       (calls s = [(ts, Show)] \<or>
        (hide \<and> (\<exists>th. ts + MIN_SHOW_PROGRESS_TIME \<le> th \<and> calls s = [(ts, Show), (th, Hide)]))))"
  using assms
  by (cases "show_task s"; cases "main_at s")
    (auto simp: wait_inv_def split: if_splits)

text \<open>
  When the caller comes back from the awaited operation at time \<open>t\<close>, a call of
  \<open>show\<close> that is ever made was made by then.
\<close>

lemma show_before_awaitable_done:
  assumes run: "run hide evs (wait_start t0) = Some s"
    and ev: "(t, Awaitable_done r) \<in> set evs"
    and sh: "(ts, Show) \<in> set (calls s)"
  shows "ts \<le> t"
proof -
  from ev obtain pre post where evs: "evs = pre @ (t, Awaitable_done r) # post"
    by (auto dest: split_list)
  from run obtain s1 s2 where r1: "run hide pre (wait_start t0) = Some s1"
    and st: "step hide (t, Awaitable_done r) s1 = Some s2"
    and r2: "run hide post s2 = Some s"
    unfolding evs by (auto simp: run_append split: option.splits)
  have i1: "wait_inv hide t0 s1" using run_inv [OF wait_start_inv r1] .
  have i2: "wait_inv hide t0 s2" using step_inv [OF i1 st] .
  have i: "wait_inv hide t0 s" using run_inv [OF i2 r2] .
  from st have at: "main_at s1 = At_awaitable" and le: "clock s1 \<le> t"
    by (auto simp: Let_def split: if_splits)
  show ?thesis
  proof (cases "show_task s1 = Sleeping")
    case True
    with i1 have "min_show_task s1 = None" by (simp add: wait_inv_def)
    with st at True have "show_task s2 = Show_cancelled"
      by (auto simp: Let_def finally_block_def split: if_splits)
    from cancelled_run [OF i2 this r2] i2 \<open>show_task s2 = Show_cancelled\<close>
    have "calls s = []" by (simp add: wait_inv_def)
    with sh show ?thesis by simp
  next
    case False
    with i1 at obtain ts1 where c1: "calls s1 = [(ts1, Show)]" and t1: "ts1 \<le> clock s1"
      by (cases "show_task s1") (auto simp: wait_inv_def)
    from step_calls [OF st] run_calls [OF r2] c1
    obtain xs where "calls s = (ts1, Show) # xs" by auto
    with inv_calls_shape [OF i] sh have "ts = ts1" by auto
    with t1 le show ?thesis by simp
  qed
qed

subsection \<open>No indication for a quick operation\<close>

text \<open>
  C4. In every run of a call entered at time \<open>t0\<close>: if the caller comes back from the
  awaited operation (with a result or an exception) before \<open>t0 + MAX_BLOCK_TIME\<close>, then
  neither \<open>show\<close> nor \<open>hide\<close> is ever called; and a call of \<open>show\<close> is made no
  sooner than \<open>t0 + MAX_BLOCK_TIME\<close> and only while the operation is not over.
\<close>

theorem quick_operation_never_shown:
  "run hide evs (wait_start t0) = Some s \<longrightarrow>
     ((\<exists>t r. (t, Awaitable_done r) \<in> set evs \<and> t < t0 + MAX_BLOCK_TIME) \<longrightarrow> calls s = [])
     \<and> (\<forall>ts. (ts, Show) \<in> set (calls s) \<longrightarrow>
           t0 + MAX_BLOCK_TIME \<le> ts \<and>
           (\<forall>t r. (t, Awaitable_done r) \<in> set evs \<longrightarrow> ts \<le> t))"
proof (intro impI)
  assume run: "run hide evs (wait_start t0) = Some s"
  have i: "wait_inv hide t0 s" using run_inv [OF wait_start_inv run] .
  have late: "t0 + MAX_BLOCK_TIME \<le> ts" if "(ts, Show) \<in> set (calls s)" for ts
    using inv_calls_shape [OF i] that by auto
  have 2: "\<forall>ts. (ts, Show) \<in> set (calls s) \<longrightarrow>
           t0 + MAX_BLOCK_TIME \<le> ts \<and>
           (\<forall>t r. (t, Awaitable_done r) \<in> set evs \<longrightarrow> ts \<le> t)"
    using late show_before_awaitable_done [OF run] by blast
  have 1: "calls s = []"
    if "\<exists>t r. (t, Awaitable_done r) \<in> set evs \<and> t < t0 + MAX_BLOCK_TIME"
  proof (rule ccontr)
    assume "calls s \<noteq> []"
    with inv_calls_shape [OF i] obtain ts where "(ts, Show) \<in> set (calls s)" by auto
    with 2 that show False by fastforce
  qed
  from 1 2 show "((\<exists>t r. (t, Awaitable_done r) \<in> set evs \<and> t < t0 + MAX_BLOCK_TIME) \<longrightarrow>
       calls s = [])
     \<and> (\<forall>ts. (ts, Show) \<in> set (calls s) \<longrightarrow>
           t0 + MAX_BLOCK_TIME \<le> ts \<and>
           (\<forall>t r. (t, Awaitable_done r) \<in> set evs \<longrightarrow> ts \<le> t))"
    by blast
qed


lemmas wait_defs = wait_start_def show_body_def finally_block_def MAX_BLOCK_TIME_def
  MIN_SHOW_PROGRESS_TIME_def Let_def quick_run_def slow_run_def interrupted_run_def

lemma quick_run_result:
  "run True quick_run (wait_start 0) =
    Some \<lparr>block_input = False, min_show_task = None, main_at = Done (Returned 3),
      show_task = Show_cancelled, calls = [], clock = 1 / 20, entered = 0\<rparr>"
  by (simp add: wait_defs)

lemma slow_run_result:
  "run True slow_run (wait_start 0) =
    Some \<lparr>block_input = False, min_show_task = Some (11 / 10), main_at = Done (Returned 3),
      show_task = Show_ended, calls = [(1 / 10, Show), (11 / 10, Hide)], clock = 6 / 5,
      entered = 0\<rparr>"
  by (simp add: wait_defs)

lemma interrupted_run_result:
  "run True interrupted_run (wait_start 0) =
    Some \<lparr>block_input = False, min_show_task = Some (11 / 10),
      main_at = Finally_raised CancelledError, show_task = In_show, calls = [(1 / 10, Show)],
      clock = 1 / 2, entered = 0\<rparr>"
  by (simp add: wait_defs)

theorem quick_operation_never_shown_witness:
  "(\<exists>s. run True quick_run (wait_start 0) = Some s \<and>
      (1 / 20, Awaitable_done (Returned 3)) \<in> set quick_run \<and>
      (1 / 20 :: real) < 0 + MAX_BLOCK_TIME \<and> calls s = [])
   \<and> (\<exists>s. run True slow_run (wait_start 0) = Some s \<and>
      (1 / 10, Show) \<in> set (calls s) \<and> 0 + MAX_BLOCK_TIME \<le> 1 / 10 \<and>
      (3 / 10, Awaitable_done (Returned 3)) \<in> set slow_run \<and> (1 / 10 :: real) \<le> 3 / 10)"
proof -
  have h1: "(1 / 20, Awaitable_done (Returned 3)) \<in> set quick_run \<and>
      (1 / 20 :: real) < 0 + MAX_BLOCK_TIME"
    by (simp add: wait_defs)
  have h2: "(3 / 10, Awaitable_done (Returned 3)) \<in> set slow_run"
    by (simp add: wait_defs)
  from quick_operation_never_shown [where hide = True and evs = quick_run and ?t0.0 = 0]
    quick_run_result h1
  have 1: "\<exists>s. run True quick_run (wait_start 0) = Some s \<and>
      (1 / 20, Awaitable_done (Returned 3)) \<in> set quick_run \<and>
      (1 / 20 :: real) < 0 + MAX_BLOCK_TIME \<and> calls s = []"
    by blast
  from quick_operation_never_shown [where hide = True and evs = slow_run and ?t0.0 = 0]
    slow_run_result h2
  have 2: "\<exists>s. run True slow_run (wait_start 0) = Some s \<and>
      (1 / 10, Show) \<in> set (calls s) \<and> 0 + MAX_BLOCK_TIME \<le> 1 / 10 \<and>
      (3 / 10, Awaitable_done (Returned 3)) \<in> set slow_run \<and> (1 / 10 :: real) \<le> 3 / 10"
    by (simp add: MAX_BLOCK_TIME_def)
  from 1 2 show ?thesis by blast
qed

subsection \<open>The indication stays for a minimum time\<close>

lemma step_held:
  assumes "step hide (t, ev) s = Some s'" "held (main_at s') = Some r"
  shows "held (main_at s) = Some r \<or> ev = Awaitable_done r"
  using assms
  by (cases ev; cases "main_at s")
    (auto simp: Let_def show_body_def finally_block_def
      split: if_splits option.splits outcome.splits)

lemma run_held:
  "run hide evs s = Some s' \<Longrightarrow> held (main_at s') = Some r \<Longrightarrow>
   held (main_at s) = Some r \<or> (\<exists>t. (t, Awaitable_done r) \<in> set evs)"
proof (induction evs arbitrary: s)
  case Nil
  then show ?case by simp
next
  case (Cons e evs)
  from Cons.prems obtain s1 where 1: "step hide e s = Some s1" and 2: "run hide evs s1 = Some s'"
    by (auto split: option.splits)
  obtain t ev where e: "e = (t, ev)" by (cases e)
  from Cons.IH [OF 2 Cons.prems(2)] show ?case
  proof
    assume "held (main_at s1) = Some r"
    from step_held [OF 1 [unfolded e] this] e show ?thesis by auto
  next
    assume "\<exists>t. (t, Awaitable_done r) \<in> set evs"
    then show ?thesis by auto
  qed
qed

lemma step_done:
  assumes "step hide (t, ev) s = Some s'" "main_at s' = Done r"
  shows "main_at s = Done r
    \<or> (ev = Awaitable_done r \<and> show_task s' = cancel (show_task s) \<and> min_show_task s = None)
    \<or> (ev = Min_show_done \<and> \<not> hide)
    \<or> (\<exists>u. ev = Hide_done (Returned u))"
  using assms
  by (cases ev; cases "main_at s")
    (auto simp: Let_def show_body_def finally_block_def
      split: if_splits option.splits outcome.splits)

lemma run_hide_returned:
  assumes "wait_inv hide t0 s" "run hide evs s = Some s'" "main_at s' = Done r" "hide"
    "calls s' \<noteq> []"
  shows "main_at s = Done r \<or> (\<exists>t u. (t, Hide_done (Returned u)) \<in> set evs)"
  using assms(1,2)
proof (induction evs arbitrary: s)
  case Nil
  with assms(3) show ?case by simp
next
  case (Cons e evs)
  from Cons.prems obtain s1 where 1: "step hide e s = Some s1" and 2: "run hide evs s1 = Some s'"
    by (auto split: option.splits)
  obtain t ev where e: "e = (t, ev)" by (cases e)
  have i1: "wait_inv hide t0 s1" using step_inv [OF Cons.prems(1) 1] .
  from Cons.IH [OF i1 2] show ?case
  proof
    assume d: "main_at s1 = Done r"
    from step_done [OF 1 [unfolded e] d] show ?thesis
    proof (elim disjE)
      assume "main_at s = Done r"
      then show ?thesis by simp
    next
      assume a: "ev = Awaitable_done r \<and> show_task s1 = cancel (show_task s) \<and>
        min_show_task s = None"
      with Cons.prems(1) have "show_task s = Sleeping \<or> show_task s = Show_cancelled"
        by (cases "show_task s") (auto simp: wait_inv_def)
      with a have c: "show_task s1 = Show_cancelled" by auto
      from cancelled_run [OF i1 c 2] i1 c have "calls s' = []" by (simp add: wait_inv_def)
      with assms(5) show ?thesis by simp
    next
      assume "ev = Min_show_done \<and> \<not> hide"
      with assms(4) show ?thesis by simp
    next
      assume "\<exists>u. ev = Hide_done (Returned u)"
      with e show ?thesis by auto
    qed
  next
    assume "\<exists>t u. (t, Hide_done (Returned u)) \<in> set evs"
    then show ?thesis by auto
  qed
qed

text \<open>
  C3. In every run of a call: a call of \<open>hide\<close> comes no sooner than
  \<open>MIN_SHOW_PROGRESS_TIME\<close> after the call of \<open>show\<close>; and when the call is over with
  the result or exception \<open>r\<close>, then \<open>r\<close> is what the awaited operation gave, and either
  \<open>show\<close> was never called and \<^verbatim>\<open>show_task\<close> is cancelled, or \<open>show\<close> was called,
  \<open>MIN_SHOW_PROGRESS_TIME\<close> has passed since, and \<open>hide\<close>, when given, has been called
  and has returned.
\<close>

theorem indication_held_then_hidden:
  "run hide evs (wait_start t0) = Some s \<longrightarrow>
     (\<forall>ts th. (ts, Show) \<in> set (calls s) \<and> (th, Hide) \<in> set (calls s) \<longrightarrow>
        ts + MIN_SHOW_PROGRESS_TIME \<le> th)
     \<and> (\<forall>r. main_at s = Done r \<longrightarrow>
          (\<exists>t. (t, Awaitable_done r) \<in> set evs) \<and>
          (calls s = [] \<and> show_task s = Show_cancelled \<or>
           (\<exists>ts. ts + MIN_SHOW_PROGRESS_TIME \<le> clock s \<and>
              (if hide
               then (\<exists>th. th \<le> clock s \<and> calls s = [(ts, Show), (th, Hide)]) \<and>
                    (\<exists>t u. (t, Hide_done (Returned u)) \<in> set evs)
               else calls s = [(ts, Show)]))))"
proof (intro impI)
  assume run: "run hide evs (wait_start t0) = Some s"
  have i: "wait_inv hide t0 s" using run_inv [OF wait_start_inv run] .
  have a: "\<forall>ts th. (ts, Show) \<in> set (calls s) \<and> (th, Hide) \<in> set (calls s) \<longrightarrow>
        ts + MIN_SHOW_PROGRESS_TIME \<le> th"
    using inv_calls_shape [OF i] by auto
  have b: "(\<exists>t. (t, Awaitable_done r) \<in> set evs) \<and>
          (calls s = [] \<and> show_task s = Show_cancelled \<or>
           (\<exists>ts. ts + MIN_SHOW_PROGRESS_TIME \<le> clock s \<and>
              (if hide
               then (\<exists>th. th \<le> clock s \<and> calls s = [(ts, Show), (th, Hide)]) \<and>
                    (\<exists>t u. (t, Hide_done (Returned u)) \<in> set evs)
               else calls s = [(ts, Show)])))"
    if d: "main_at s = Done r" for r
  proof
    from run_held [OF run, of r] d
    show "\<exists>t. (t, Awaitable_done r) \<in> set evs" by (simp add: wait_start_def)
  next
    have h: "\<exists>t u. (t, Hide_done (Returned u)) \<in> set evs" if "hide" "calls s \<noteq> []"
      using run_hide_returned [OF wait_start_inv run d that] by (simp add: wait_start_def)
    from i d have "calls s = [] \<and> show_task s = Show_cancelled \<or>
           (\<exists>ts. ts + MIN_SHOW_PROGRESS_TIME \<le> clock s \<and>
              (if hide then \<exists>th. th \<le> clock s \<and> calls s = [(ts, Show), (th, Hide)]
               else calls s = [(ts, Show)]))"
      by (cases "show_task s") (auto simp: wait_inv_def split: if_splits)
    with h show "calls s = [] \<and> show_task s = Show_cancelled \<or>
           (\<exists>ts. ts + MIN_SHOW_PROGRESS_TIME \<le> clock s \<and>
              (if hide
               then (\<exists>th. th \<le> clock s \<and> calls s = [(ts, Show), (th, Hide)]) \<and>
                    (\<exists>t u. (t, Hide_done (Returned u)) \<in> set evs)
               else calls s = [(ts, Show)]))"
      by (cases hide) auto
  qed
  from a b show "(\<forall>ts th. (ts, Show) \<in> set (calls s) \<and> (th, Hide) \<in> set (calls s) \<longrightarrow>
        ts + MIN_SHOW_PROGRESS_TIME \<le> th)
     \<and> (\<forall>r. main_at s = Done r \<longrightarrow>
          (\<exists>t. (t, Awaitable_done r) \<in> set evs) \<and>
          (calls s = [] \<and> show_task s = Show_cancelled \<or>
           (\<exists>ts. ts + MIN_SHOW_PROGRESS_TIME \<le> clock s \<and>
              (if hide
               then (\<exists>th. th \<le> clock s \<and> calls s = [(ts, Show), (th, Hide)]) \<and>
                    (\<exists>t u. (t, Hide_done (Returned u)) \<in> set evs)
               else calls s = [(ts, Show)]))))"
    by blast
qed

theorem indication_held_then_hidden_witness:
  "\<exists>s. run True slow_run (wait_start 0) = Some s \<and>
      (1 / 10, Show) \<in> set (calls s) \<and> (11 / 10, Hide) \<in> set (calls s) \<and>
      1 / 10 + MIN_SHOW_PROGRESS_TIME \<le> 11 / 10 \<and>
      main_at s = Done (Returned 3) \<and>
      (\<exists>t. (t, Awaitable_done (Returned 3)) \<in> set slow_run) \<and>
      calls s = [(1 / 10, Show), (11 / 10, Hide)] \<and>
      (\<exists>t u. (t, Hide_done (Returned u)) \<in> set slow_run)"
proof -
  let ?l = "\<lparr>block_input = False, min_show_task = Some (11 / 10),
      main_at = Done (Returned (3::nat)),
      show_task = Show_ended, calls = [(1 / 10, Show), (11 / 10, Hide)], clock = 6 / 5,
      entered = 0\<rparr>"
  have m: "(3 / 10, Awaitable_done (Returned 3)) \<in> set slow_run"
    "(6 / 5, Hide_done (Returned ())) \<in> set slow_run"
    by (simp_all add: slow_run_def)
  from indication_held_then_hidden
    [where hide = True and evs = slow_run and ?t0.0 = 0 and s = ?l]
    slow_run_result
  have "1 / 10 + MIN_SHOW_PROGRESS_TIME \<le> 11 / 10"
    by (simp add: MIN_SHOW_PROGRESS_TIME_def)
  with slow_run_result m show ?thesis
    by (intro exI [of _ ?l]) auto
qed

subsection \<open>Input is unblocked when the call is over\<close>

text \<open>
  C10. The call starts with \<^verbatim>\<open>ui.block_input\<close> set. In every run, input is blocked
  exactly while the caller waits for the operation and \<^verbatim>\<open>_show\<close> still sleeps; it is
  unblocked exactly when \<open>show\<close> has been called or \<^verbatim>\<open>show_task\<close> has been cancelled
  in the \<^verbatim>\<open>else\<close> branch. So it is unblocked whenever the call is over, with a
  result, an exception or a cancellation.
\<close>

theorem input_unblocked_when_over:
  "block_input (wait_start t0 :: 'a wait_state)
   \<and> (run hide evs (wait_start t0) = Some (s :: 'a wait_state) \<longrightarrow>
       (block_input s \<longleftrightarrow> main_at s = At_awaitable \<and> show_task s = Sleeping)
       \<and> (\<not> block_input s \<longleftrightarrow> calls s \<noteq> [] \<or> show_task s = Show_cancelled)
       \<and> (\<forall>r. main_at s = Done r \<longrightarrow> \<not> block_input s)
       \<and> (\<forall>e. main_at s = Finally_raised e \<longrightarrow> \<not> block_input s))"
proof (intro conjI impI)
  show "block_input (wait_start t0 :: 'a wait_state)" by (simp add: wait_start_def)
next
  assume run: "run hide evs (wait_start t0) = Some s"
  have i: "wait_inv hide t0 s" using run_inv [OF wait_start_inv run] .
  show "block_input s \<longleftrightarrow> main_at s = At_awaitable \<and> show_task s = Sleeping"
    using i by (cases "show_task s") (auto simp: wait_inv_def)
  show "\<not> block_input s \<longleftrightarrow> calls s \<noteq> [] \<or> show_task s = Show_cancelled"
    using i by (cases "show_task s"; cases "main_at s") (auto simp: wait_inv_def split: if_splits)
  show "\<forall>r. main_at s = Done r \<longrightarrow> \<not> block_input s"
    using i by (cases "show_task s") (auto simp: wait_inv_def)
  show "\<forall>e. main_at s = Finally_raised e \<longrightarrow> \<not> block_input s"
    using i by (cases "show_task s") (auto simp: wait_inv_def)
qed

theorem input_unblocked_when_over_witness:
  "(\<exists>s. run True quick_run (wait_start 0) = Some s \<and> main_at s = Done (Returned 3) \<and>
        show_task s = Show_cancelled \<and> \<not> block_input s)
   \<and> (\<exists>s. run True slow_run (wait_start 0) = Some s \<and> main_at s = Done (Returned 3) \<and>
        calls s \<noteq> [] \<and> \<not> block_input s)
   \<and> (\<exists>s. run True interrupted_run (wait_start 0) = Some s \<and>
        main_at s = Finally_raised CancelledError \<and> \<not> block_input s)"
proof -
  let ?q = "\<lparr>block_input = False, min_show_task = None, main_at = Done (Returned (3::nat)),
      show_task = Show_cancelled, calls = [], clock = 1 / 20, entered = 0\<rparr>"
  let ?l = "\<lparr>block_input = False, min_show_task = Some (11 / 10),
      main_at = Done (Returned (3::nat)),
      show_task = Show_ended, calls = [(1 / 10, Show), (11 / 10, Hide)], clock = 6 / 5,
      entered = 0\<rparr>"
  let ?i = "\<lparr>block_input = False, min_show_task = Some (11 / 10),
      main_at = Finally_raised CancelledError :: nat main_pc, show_task = In_show,
      calls = [(1 / 10, Show)], clock = 1 / 2, entered = 0\<rparr>"
  from input_unblocked_when_over
    [where hide = True and evs = quick_run and ?t0.0 = 0 and s = ?q, THEN conjunct2]
    quick_run_result
  have 1: "\<not> block_input ?q" by simp
  from input_unblocked_when_over
    [where hide = True and evs = slow_run and ?t0.0 = 0 and s = ?l, THEN conjunct2]
    slow_run_result
  have 2: "\<not> block_input ?l" by simp
  from input_unblocked_when_over
    [where hide = True and evs = interrupted_run and ?t0.0 = 0 and s = ?i, THEN conjunct2]
    interrupted_run_result
  have 3: "\<not> block_input ?i" by simp
  from 1 2 3 quick_run_result slow_run_result interrupted_run_result
  show ?thesis by simp
qed

section \<open>Proofs: SingleInstanceTask\<close>

text \<open>
  C8. For an instance whose task is running, \<open>start\<close> under \<open>RejectIfRunning\<close>
  fails with \<open>AlreadyRunningError\<close> and leaves the instance as it is, and under
  \<open>CancelAndRestart\<close> it cancels the running task, starts a new one with one more
  call of the factory, and does not fail. A first \<open>start\<close> on a new instance calls the
  factory once and leaves the task running, so that after a second \<open>start\<close> the factory
  has been called once in all under \<open>RejectIfRunning\<close> and twice under
  \<open>CancelAndRestart\<close>.
\<close>

theorem start_while_running:
  "(task s = Running \<and> policy s = RejectIfRunning
      \<longrightarrow> start s = (s, Some AlreadyRunningError))
   \<and> (task s = Running \<and> policy s = CancelAndRestart
      \<longrightarrow> start s =
          (s\<lparr>task := Running, earlier := earlier s @ [Cancelled],
             factory_calls := Suc (factory_calls s)\<rparr>, None))
   \<and> start (new_task p) =
       (\<lparr>policy = p, task = Running, earlier = [], factory_calls = 1\<rparr>, None)
   \<and> factory_calls (fst (start (fst (start (new_task p))))) =
       (case p of RejectIfRunning \<Rightarrow> 1 | CancelAndRestart \<Rightarrow> 2)
   \<and> snd (start (fst (start (new_task p)))) =
       (case p of RejectIfRunning \<Rightarrow> Some AlreadyRunningError | CancelAndRestart \<Rightarrow> None)"
  by (cases p) (auto simp: start_def launch_def new_task_def)

theorem start_while_running_witness:
  "task (fst (start (new_task RejectIfRunning))) = Running
   \<and> policy (fst (start (new_task RejectIfRunning))) = RejectIfRunning
   \<and> start (fst (start (new_task RejectIfRunning))) =
       (\<lparr>policy = RejectIfRunning, task = Running, earlier = [], factory_calls = 1\<rparr>,
        Some AlreadyRunningError)
   \<and> task (fst (start (new_task CancelAndRestart))) = Running
   \<and> policy (fst (start (new_task CancelAndRestart))) = CancelAndRestart
   \<and> start (fst (start (new_task CancelAndRestart))) =
       (\<lparr>policy = CancelAndRestart, task = Running, earlier = [Cancelled],
         factory_calls = 2\<rparr>, None)"
proof -
  have h1: "task (fst (start (new_task RejectIfRunning))) = Running \<and>
      policy (fst (start (new_task RejectIfRunning))) = RejectIfRunning"
    by (simp add: start_def launch_def new_task_def)
  have h2: "task (fst (start (new_task CancelAndRestart))) = Running \<and>
      policy (fst (start (new_task CancelAndRestart))) = CancelAndRestart"
    by (simp add: start_def launch_def new_task_def)
  have e1: "fst (start (new_task RejectIfRunning)) =
      \<lparr>policy = RejectIfRunning, task = Running, earlier = [], factory_calls = 1\<rparr>"
    by (simp add: start_def launch_def new_task_def)
  have e2: "fst (start (new_task CancelAndRestart)) =
      \<lparr>policy = CancelAndRestart, task = Running, earlier = [], factory_calls = 1\<rparr>"
    by (simp add: start_def launch_def new_task_def)
  from start_while_running [where s = "fst (start (new_task RejectIfRunning))"] h1
  have 1: "start (fst (start (new_task RejectIfRunning))) =
      (fst (start (new_task RejectIfRunning)), Some AlreadyRunningError)" by blast
  from start_while_running [where s = "fst (start (new_task CancelAndRestart))"] h2
  have 2: "start (fst (start (new_task CancelAndRestart))) =
      ((fst (start (new_task CancelAndRestart)))\<lparr>task := Running,
          earlier := earlier (fst (start (new_task CancelAndRestart))) @ [Cancelled],
          factory_calls := Suc (factory_calls (fst (start (new_task CancelAndRestart))))\<rparr>,
        None)" by blast
  from h1 h2 1 2 show ?thesis unfolding e1 e2 by simp
qed

end
